theory Spec2Isabelle
  imports Main
begin

section \<open>The step router of tunnel-steps (src/router.js)\<close>

text \<open>
  A shallow embedding of the class \<open>Router\<close>. The router object, the browser's
  \<open>window.location.hash\<close> and a log of every call the router makes on a collaborator
  are one record that each method takes and returns. A method that can throw returns a
  result next to the state: what it had already mutated when the exception left it stays
  mutated, as in JavaScript.

  Modelling decisions.
  \<^item> A JavaScript value that the router handles as a route is \<open>undefined\<close>, \<open>null\<close>
    or a string. Truthiness and the conversion to a property name follow the language:
    \<open>steps[undefined]\<close> reads the property named \<open>undefined\<close>.
  \<^item> \<open>options.steps\<close> is the finite map of the object's own properties, every value a
    step object; properties inherited from a prototype are not modelled.
  \<^item> A step is opaque: its three methods are given by their outcome (a value or an
    exception); \<open>canTheStepBeDisplayed\<close> returns an object with the properties
    \<open>canBeDisplayed\<close> and \<open>fallbackRoute\<close>. Each method of a step is called at most
    once by one router method, so a fixed outcome per call loses nothing within a
    method; the registry is part of the state, so it may differ from one method call to
    the next. A step does not call back into the router.
  \<^item> Assigning \<open>window.location.hash\<close> only stores the token and logs the write. The
    browser delivers \<open>hashchange\<close> later, as a separate call of \<open>hashChanged\<close> with the
    event; percent-encoding of the fragment is not modelled.
\<close>

subsection \<open>Values, errors, collaborators\<close>

datatype jsval = Undefined | Null | Str string

fun truthy :: "jsval \<Rightarrow> bool" where
  "truthy Undefined = False"
| "truthy Null = False"
| "truthy (Str s) = (s \<noteq> [])"

fun ToString :: "jsval \<Rightarrow> string" where
  "ToString Undefined = ''undefined''"
| "ToString Null = ''null''"
| "ToString (Str s) = s"

datatype error = TypeError | Thrown

datatype 'a res = Ok 'a | Exn error

text \<open>The object a step's \<open>canTheStepBeDisplayed()\<close> returns.\<close>

record verdict =
  canBeDisplayed :: bool
  verdict_fallbackRoute :: jsval

record step =
  route :: jsval
  fallbackRoute :: jsval
  canTheStepBeDisplayed :: "verdict res"
  render :: "jsval \<Rightarrow> unit res"
  destroy :: "unit res"

text \<open>
  \<open>getDatasFromCache(routes)\<close> returns a falsy value (\<open>None\<close>) or an object that maps a
  route to an entry with a \<open>datas\<close> property (the map gives that property).
\<close>

record options =
  defaultRoute :: jsval
  stepsOrder :: "string list"
  steps :: "string \<rightharpoonup> step"
  getDatasFromCache :: "jsval list \<Rightarrow> (string \<rightharpoonup> jsval) option res"

text \<open>
  \<open>this.stepRedirected\<close>. It starts as \<open>{}\<close>: \<open>redirect\<close> is then \<open>undefined\<close>, which the
  code only ever tests for truth, so it is a boolean here.
\<close>

record marker =
  redirect :: bool
  marker_previousRoute :: jsval

datatype hashevent = HashChangeEvent (oldURL: string)

datatype effect =
    Call_canTheStepBeDisplayed string
  | Call_destroy string
  | Call_render string jsval
  | Write_hash jsval

record router =
  options :: options
  reverseNavigation :: bool
  stepCreated :: bool
  applicationReady :: bool
  stepRedirected :: marker
  currentRoute :: jsval
  previousRoute :: jsval
  listening :: bool
  hash :: string
  trace :: "effect list"

definition Router :: "options \<Rightarrow> string \<Rightarrow> router" where
  "Router userOptions h =
     \<lparr> options = userOptions,
       reverseNavigation = False,
       stepCreated = False,
       applicationReady = False,
       stepRedirected = \<lparr> redirect = False, marker_previousRoute = Undefined \<rparr>,
       currentRoute = Undefined,
       previousRoute = Undefined,
       listening = False,
       hash = h,
       trace = [] \<rparr>"

definition defaultOptions :: options where
  "defaultOptions =
     \<lparr> defaultRoute = Null, stepsOrder = [], steps = Map.empty,
       getDatasFromCache = (\<lambda>_. Ok None) \<rparr>"

subsection \<open>Strings and arrays as JavaScript reads them\<close>

text \<open>\<open>s.split(c)\<close> for a one-character separator.\<close>

fun split_on :: "char \<Rightarrow> string \<Rightarrow> string list" where
  "split_on c [] = [[]]"
| "split_on c (x # xs) =
     (if x = c then [] # split_on c xs
      else (x # hd (split_on c xs)) # tl (split_on c xs))"

text \<open>\<open>xs[i]\<close>: \<open>undefined\<close> outside the array.\<close>

definition js_index :: "string list \<Rightarrow> int \<Rightarrow> jsval" where
  "js_index xs i = (if 0 \<le> i \<and> i < int (length xs) then Str (xs ! nat i) else Undefined)"

text \<open>\<open>xs.findIndex(p)\<close>: the first position that satisfies \<open>p\<close>, or \<open>-1\<close>.\<close>

fun findIndex :: "('a \<Rightarrow> bool) \<Rightarrow> 'a list \<Rightarrow> int" where
  "findIndex p [] = - 1"
| "findIndex p (x # xs) =
     (if p x then 0 else (let i = findIndex p xs in if i < 0 then - 1 else i + 1))"

subsection \<open>The location\<close>

definition getRoute :: "router \<Rightarrow> string" where
  "getRoute r = drop 1 (hash r)"

text \<open>
  The setter of \<open>location.hash\<close> converts its argument to a string, drops one leading
  \<open>#\<close>, and the getter then gives the empty string for an empty fragment and \<open>#\<close>
  followed by the fragment otherwise.
\<close>

definition hash_of :: "string \<Rightarrow> string" where
  "hash_of s =
     (let f = (if s \<noteq> [] \<and> hd s = CHR ''#'' then tl s else s)
      in if f = [] then [] else CHR ''#'' # f)"

definition setRoute :: "jsval \<Rightarrow> router \<Rightarrow> router" where
  "setRoute v r = r\<lparr> hash := hash_of (ToString v), trace := trace r @ [Write_hash v] \<rparr>"

definition getPreviousRoute :: "hashevent option \<Rightarrow> jsval" where
  "getPreviousRoute e =
     (case e of
        None \<Rightarrow> Null
      | Some ev \<Rightarrow>
          if oldURL ev = [] then Null else js_index (split_on CHR ''#'' (oldURL ev)) 1)"

subsection \<open>The sequencer\<close>

definition lookup_step :: "router \<Rightarrow> jsval \<Rightarrow> step option" where
  "lookup_step r v = steps (options r) (ToString v)"

definition getIndexFromRoute :: "router \<Rightarrow> jsval \<Rightarrow> int" where
  "getIndexFromRoute r rt = findIndex (\<lambda>c. Str c = rt) (stepsOrder (options r))"

definition getPreviousStepRoute :: "router \<Rightarrow> jsval \<Rightarrow> jsval" where
  "getPreviousStepRoute r rt =
     (case lookup_step r (js_index (stepsOrder (options r)) (getIndexFromRoute r rt - 1)) of
        Some nextStep \<Rightarrow> route nextStep
      | None \<Rightarrow> Str ''end'')"

definition getNextStepRoute :: "router \<Rightarrow> jsval \<Rightarrow> jsval" where
  "getNextStepRoute r rt =
     (case lookup_step r (js_index (stepsOrder (options r)) (getIndexFromRoute r rt + 1)) of
        Some nextStep \<Rightarrow> route nextStep
      | None \<Rightarrow> Str ''end'')"

subsection \<open>The transition gate\<close>

definition checkIfTheStepCanBeDisplay ::
  "string \<Rightarrow> hashevent option \<Rightarrow> router \<Rightarrow> verdict res \<times> router" where
  "checkIfTheStepCanBeDisplay rt e r =
     (case steps (options r) rt of
        Some s \<Rightarrow>
          (canTheStepBeDisplayed s,
           r\<lparr> trace := trace r @ [Call_canTheStepBeDisplayed rt] \<rparr>)
      | None \<Rightarrow>
          (let prev = getPreviousRoute e in
           if truthy prev then
             (case lookup_step r prev of
                None \<Rightarrow> (Exn TypeError, r)
              | Some p \<Rightarrow>
                  (Ok \<lparr> canBeDisplayed = False,
                        verdict_fallbackRoute =
                          (if truthy (fallbackRoute p) then fallbackRoute p
                           else defaultRoute (options r)) \<rparr>, r))
           else
             (Ok \<lparr> canBeDisplayed = False,
                   verdict_fallbackRoute = defaultRoute (options r) \<rparr>, r)))"

subsection \<open>The lifecycle manager\<close>

text \<open>The argument of \<open>render\<close>: \<open>stepDatas ? stepDatas[route].datas : null\<close>.\<close>

definition render_argument :: "(string \<rightharpoonup> jsval) option \<Rightarrow> jsval \<Rightarrow> jsval res" where
  "render_argument stepDatas rt =
     (case stepDatas of
        None \<Rightarrow> Ok Null
      | Some m \<Rightarrow> (case m (ToString rt) of None \<Rightarrow> Exn TypeError | Some d \<Rightarrow> Ok d))"

definition createStep :: "jsval \<Rightarrow> router \<Rightarrow> unit res \<times> router" where
  "createStep rt r =
     (case getDatasFromCache (options r) [rt] of
        Exn x \<Rightarrow> (Exn x, r)
      | Ok stepDatas \<Rightarrow>
          (case lookup_step r rt of
             None \<Rightarrow> (Exn TypeError, r)
           | Some s \<Rightarrow>
               (case render_argument stepDatas rt of
                  Exn x \<Rightarrow> (Exn x, r)
                | Ok d \<Rightarrow>
                    (let r1 = r\<lparr> trace := trace r @ [Call_render (ToString rt) d] \<rparr> in
                     case render s d of
                       Exn x \<Rightarrow> (Exn x, r1)
                     | Ok u \<Rightarrow> (Ok (), r1\<lparr> applicationReady := True \<rparr>)))))"

definition destroyStep :: "jsval \<Rightarrow> router \<Rightarrow> unit res \<times> router" where
  "destroyStep rt r =
     (case lookup_step r rt of
        None \<Rightarrow> (Exn TypeError, r)
      | Some s \<Rightarrow> (destroy s, r\<lparr> trace := trace r @ [Call_destroy (ToString rt)] \<rparr>))"

text \<open>Sequencing of two calls: an exception of the first skips the second.\<close>

definition and_then ::
  "unit res \<times> router \<Rightarrow> (router \<Rightarrow> unit res \<times> router) \<Rightarrow> unit res \<times> router" where
  "and_then m f = (case m of (Exn x, r) \<Rightarrow> (Exn x, r) | (Ok u, r) \<Rightarrow> f r)"

text \<open>The two statements that end \<open>stepCanBeDisplayed\<close> (lines 101 to 111).\<close>

definition resetMarker :: "router \<Rightarrow> unit res \<times> router" where
  "resetMarker r =
     (Ok (),
      if redirect (stepRedirected r)
      then r\<lparr> stepRedirected := (stepRedirected r)\<lparr> redirect := False \<rparr> \<rparr>
      else r)"

definition createIfNotCreated :: "router \<Rightarrow> unit res \<times> router" where
  "createIfNotCreated r =
     (if \<not> stepCreated r then and_then (createStep (currentRoute r) r) resetMarker
      else resetMarker r)"

definition stepCanBeDisplayed :: "hashevent option \<Rightarrow> router \<Rightarrow> unit res \<times> router" where
  "stepCanBeDisplayed e r =
     (case e of
        None \<Rightarrow> createIfNotCreated r
      | Some ev \<Rightarrow>
          (let r1 = r\<lparr> previousRoute :=
                        (if redirect (stepRedirected r)
                         then marker_previousRoute (stepRedirected r)
                         else getPreviousRoute e) \<rparr> in
           if truthy (previousRoute r1) then
             and_then (destroyStep (previousRoute r1) r1)
               (\<lambda>r2. and_then (createStep (currentRoute r2) r2)
                  (\<lambda>r3. createIfNotCreated (r3\<lparr> stepCreated := True \<rparr>)))
           else createIfNotCreated r1))"

definition stepCantBeDisplayed :: "hashevent option \<Rightarrow> jsval \<Rightarrow> router \<Rightarrow> router" where
  "stepCantBeDisplayed e fb r =
     (let r1 = r\<lparr> stepRedirected :=
                   \<lparr> redirect = True, marker_previousRoute = getPreviousRoute e \<rparr>,
                 previousRoute := Null \<rparr>
      in if truthy fb then setRoute fb r1 else r1)"

subsection \<open>Entry points\<close>

definition hashChanged :: "hashevent option \<Rightarrow> router \<Rightarrow> unit res \<times> router" where
  "hashChanged e r =
     (let rt = getRoute r in
      case checkIfTheStepCanBeDisplay rt e r of
        (Exn x, r1) \<Rightarrow> (Exn x, r1)
      | (Ok datas, r1) \<Rightarrow>
          (let r2 = r1\<lparr> currentRoute := Str rt \<rparr> in
           if canBeDisplayed datas then stepCanBeDisplayed e r2
           else (Ok (), stepCantBeDisplayed e (verdict_fallbackRoute datas) r2)))"

definition triggerNext :: "router \<Rightarrow> bool \<times> router" where
  "triggerNext r =
     (let r1 = r\<lparr> reverseNavigation := False, previousRoute := currentRoute r \<rparr>;
          nextRoute = getNextStepRoute r1 (currentRoute r1)
      in if nextRoute \<noteq> Str ''end'' then (True, setRoute nextRoute r1) else (False, r1))"

definition triggerPrevious :: "router \<Rightarrow> router" where
  "triggerPrevious r =
     (let r1 = r\<lparr> reverseNavigation := True, previousRoute := currentRoute r \<rparr>;
          nextRoute = getPreviousStepRoute r1 (previousRoute r1)
      in setRoute nextRoute r1)"

definition addEvents :: "router \<Rightarrow> router" where
  "addEvents r = r\<lparr> listening := True \<rparr>"

definition destroy_router :: "router \<Rightarrow> router" where
  "destroy_router r = r\<lparr> listening := False \<rparr>"

definition init :: "router \<Rightarrow> unit res \<times> router" where
  "init r =
     (let r1 = addEvents r;
          rt = getRoute r1;
          r2 = r1\<lparr> currentRoute := (if rt = [] then defaultRoute (options r1) else Str rt) \<rparr>
      in if rt = [] then (Ok (), setRoute (currentRoute r2) r2) else hashChanged None r2)"

subsection \<open>Runs\<close>

text \<open>
  The methods of the class, and the one thing the environment does between two of them:
  the user or the browser moves the location (\<open>Env_location\<close> stores the new value of
  \<open>location.hash\<close>; the \<open>hashchange\<close> event is the \<open>Op_hashChanged\<close> that follows).
  An exception ends the method that raised it and nothing else.
\<close>

datatype operation =
    Op_init
  | Op_addEvents
  | Op_hashChanged "hashevent option"
  | Op_stepCanBeDisplayed "hashevent option"
  | Op_stepCantBeDisplayed "hashevent option" jsval
  | Op_checkIfTheStepCanBeDisplay string "hashevent option"
  | Op_createStep jsval
  | Op_destroyStep jsval
  | Op_triggerNext
  | Op_triggerPrevious
  | Op_setRoute jsval
  | Op_destroy
  | Env_location string

fun exec :: "operation \<Rightarrow> router \<Rightarrow> router" where
  "exec Op_init r = snd (init r)"
| "exec Op_addEvents r = addEvents r"
| "exec (Op_hashChanged e) r = snd (hashChanged e r)"
| "exec (Op_stepCanBeDisplayed e) r = snd (stepCanBeDisplayed e r)"
| "exec (Op_stepCantBeDisplayed e fb) r = stepCantBeDisplayed e fb r"
| "exec (Op_checkIfTheStepCanBeDisplay rt e) r = snd (checkIfTheStepCanBeDisplay rt e r)"
| "exec (Op_createStep rt) r = snd (createStep rt r)"
| "exec (Op_destroyStep rt) r = snd (destroyStep rt r)"
| "exec Op_triggerNext r = snd (triggerNext r)"
| "exec Op_triggerPrevious r = triggerPrevious r"
| "exec (Op_setRoute v) r = setRoute v r"
| "exec Op_destroy r = destroy_router r"
| "exec (Env_location h) r = r\<lparr> hash := h \<rparr>"

fun run :: "operation list \<Rightarrow> router \<Rightarrow> router" where
  "run [] r = r"
| "run (x # xs) r = run xs (exec x r)"

subsection \<open>What the log holds\<close>

fun is_lifecycle :: "effect \<Rightarrow> bool" where
  "is_lifecycle (Call_destroy k) = True"
| "is_lifecycle (Call_render k d) = True"
| "is_lifecycle x = False"

fun is_write :: "effect \<Rightarrow> bool" where
  "is_write (Write_hash v) = True"
| "is_write x = False"

definition lifecycle_calls :: "router \<Rightarrow> effect list" where
  "lifecycle_calls r = filter is_lifecycle (trace r)"

definition location_writes :: "router \<Rightarrow> effect list" where
  "location_writes r = filter is_write (trace r)"

text \<open>
  The calls of \<open>destroy\<close> and \<open>render\<close> that a method has added to the log, and the
  shapes they may have within one transition: at most one \<open>destroy\<close>, at most one
  \<open>render\<close>, the \<open>destroy\<close> first.
\<close>

definition new_calls :: "router \<Rightarrow> router \<Rightarrow> effect list" where
  "new_calls r r' = filter is_lifecycle (drop (length (trace r)) (trace r'))"

fun destroy_then_render :: "effect list \<Rightarrow> bool" where
  "destroy_then_render [] = True"
| "destroy_then_render [Call_destroy p] = True"
| "destroy_then_render [Call_render c d] = True"
| "destroy_then_render [Call_destroy p, Call_render c d] = True"
| "destroy_then_render ys = False"

subsection \<open>Registries\<close>

text \<open>
  The registry the sequencer is written for: the routes of \<open>stepsOrder\<close> are pairwise
  different, each is registered in \<open>steps\<close> with a step whose own \<open>route\<close> property is
  that route, and no step is registered under the name \<open>undefined\<close>, the property that
  a read outside \<open>stepsOrder\<close> ends up looking for.
\<close>

definition registry_ok :: "options \<Rightarrow> bool" where
  "registry_ok ops =
     (distinct (stepsOrder ops)
      \<and> list_all (\<lambda>k. case steps ops k of None \<Rightarrow> False | Some s \<Rightarrow> route s = Str k)
            (stepsOrder ops)
      \<and> steps ops ''undefined'' = None)"

subsection \<open>Example registries\<close>

text \<open>A step that is always displayable and whose methods return normally.\<close>

definition plain_step :: "string \<Rightarrow> step" where
  "plain_step k =
     \<lparr> route = Str k, fallbackRoute = Undefined,
       canTheStepBeDisplayed = Ok \<lparr> canBeDisplayed = True, verdict_fallbackRoute = Undefined \<rparr>,
       render = (\<lambda>d. Ok ()), destroy = Ok () \<rparr>"

definition abc_options :: options where
  "abc_options =
     \<lparr> defaultRoute = Str ''a'',
       stepsOrder = [''a'', ''b'', ''c''],
       steps = [''a'' \<mapsto> plain_step ''a'', ''b'' \<mapsto> plain_step ''b'', ''c'' \<mapsto> plain_step ''c''],
       getDatasFromCache = (\<lambda>rs. Ok None) \<rparr>"

text \<open>
  Steps that offer the three methods and nothing else: they have no \<open>route\<close> property.
\<close>

definition unrouted_options :: options where
  "unrouted_options =
     \<lparr> defaultRoute = Str ''a'',
       stepsOrder = [''a'', ''b''],
       steps = [''a'' \<mapsto> (plain_step ''a'')\<lparr> route := Undefined \<rparr>,
                ''b'' \<mapsto> (plain_step ''b'')\<lparr> route := Undefined \<rparr>],
       getDatasFromCache = (\<lambda>rs. Ok None) \<rparr>"

text \<open>
  A flow whose last step \<open>c\<close> refuses to be displayed and sends the user to \<open>a\<close>, and
  whose step \<open>b\<close> names \<open>c\<close> as the fallback for an unknown route.
\<close>

definition guarded_options :: options where
  "guarded_options =
     \<lparr> defaultRoute = Str ''a'',
       stepsOrder = [''a'', ''b'', ''c''],
       steps = [''a'' \<mapsto> plain_step ''a'',
                ''b'' \<mapsto> (plain_step ''b'')\<lparr> fallbackRoute := Str ''c'' \<rparr>,
                ''c'' \<mapsto> (plain_step ''c'')\<lparr> canTheStepBeDisplayed :=
                         Ok \<lparr> canBeDisplayed = False, verdict_fallbackRoute = Str ''a'' \<rparr> \<rparr>],
       getDatasFromCache = (\<lambda>rs. Ok None) \<rparr>"

text \<open>The same flow with the constructor's default for \<open>defaultRoute\<close>, which is \<open>null\<close>.\<close>

definition no_default_options :: options where
  "no_default_options = abc_options\<lparr> defaultRoute := Null \<rparr>"

text \<open>The flow \<open>a\<close>, \<open>b\<close>, \<open>c\<close> with one more step, registered under the name \<open>undefined\<close>.\<close>

definition undefined_options :: options where
  "undefined_options =
     abc_options\<lparr> steps := (steps abc_options)(''undefined'' \<mapsto> plain_step ''x'') \<rparr>"


subsection \<open>Example states\<close>

text \<open>The page was loaded on \<open>#a\<close>, respectively \<open>#c\<close>, and the router initialised.\<close>

definition at_a :: router where
  "at_a = run [Op_init] (Router abc_options ''#a'')"

definition at_c :: router where
  "at_c = run [Op_init] (Router abc_options ''#c'')"

definition unrouted_at_a :: router where
  "unrouted_at_a = run [Op_init] (Router unrouted_options ''#a'')"

definition undefined_at_a :: router where
  "undefined_at_a = run [Op_init] (Router undefined_options ''#a'')"

definition undefined_at_c :: router where
  "undefined_at_c = run [Op_init] (Router undefined_options ''#c'')"


text \<open>
  In the guarded flow the user is on \<open>b\<close> and \<open>triggerNext\<close> has written \<open>c\<close>.
\<close>

definition entering_c :: router where
  "entering_c =
     run [Op_init, Op_triggerNext] (Router guarded_options ''#b'')"




text \<open>
  The page was loaded on the unknown route \<open>yyy\<close> with no default route, so the router
  stayed there; the user then moved the location to \<open>zzz\<close>, unknown as well.
\<close>

definition stuck_then_moved :: router where
  "stuck_then_moved =
     run [Op_init, Env_location ''#zzz''] (Router no_default_options ''#yyy'')"

text \<open>
  In the guarded flow: the page is loaded on \<open>a\<close>; \<open>triggerNext\<close> leads to \<open>b\<close>
  (\<open>a\<close> is destroyed, \<open>b\<close> rendered); the user follows a link to \<open>#\<close>, an unknown
  route, and the router writes \<open>c\<close>, the fallback of \<open>b\<close>; \<open>c\<close> refuses and the router
  writes \<open>a\<close>. The \<open>hashchange\<close> for \<open>a\<close>, coming from \<open>c\<close>, is still to come.
\<close>

definition redirected_twice :: router where
  "redirected_twice =
     run [Op_init,
          Op_triggerNext,
          Op_hashChanged (Some (HashChangeEvent ''http://h/#a'')),
          Env_location [],
          Op_hashChanged (Some (HashChangeEvent ''http://h/#b'')),
          Op_hashChanged (Some (HashChangeEvent ''http://h/#''))]
       (Router guarded_options ''#a'')"

subsection \<open>The relation between the states before and after a method\<close>

text \<open>
  \<open>evolves r r'\<close>: the options are the same, the log has only grown, \<open>applicationReady\<close>
  has not gone back to false, and if it has become true then the new part of the log
  holds a call of \<open>render\<close> that returned normally.
\<close>

definition evolves :: "router \<Rightarrow> router \<Rightarrow> bool" where
  "evolves r r' \<longleftrightarrow>
     options r' = options r \<and>
     (applicationReady r \<longrightarrow> applicationReady r') \<and>
     (\<exists>t. trace r' = trace r @ t \<and>
          (applicationReady r' \<and> \<not> applicationReady r \<longrightarrow>
             (\<exists>k d s. Call_render k d \<in> set t \<and> steps (options r) k = Some s \<and> render s d = Ok ())))"

section \<open>Proofs\<close>

lemmas router_defs =
  Router_def getRoute_def hash_of_def setRoute_def getPreviousRoute_def js_index_def
  lookup_step_def getIndexFromRoute_def getPreviousStepRoute_def getNextStepRoute_def
  checkIfTheStepCanBeDisplay_def render_argument_def createStep_def destroyStep_def
  and_then_def resetMarker_def createIfNotCreated_def stepCanBeDisplayed_def
  stepCantBeDisplayed_def hashChanged_def triggerNext_def triggerPrevious_def
  addEvents_def destroy_router_def init_def

lemmas example_defs = plain_step_def abc_options_def unrouted_options_def guarded_options_def

subsection \<open>Positions in \<open>stepsOrder\<close>\<close>

text \<open>
  \<open>findIndex\<close> gives the first position of a route that occurs, and \<open>-1\<close> for one that
  does not; the sequencer then looks one entry further, or one entry back.
\<close>

lemma findIndex_first:
  "i < length xs \<Longrightarrow> p (xs ! i) \<Longrightarrow> \<forall>j<i. \<not> p (xs ! j) \<Longrightarrow> findIndex p xs = int i"
proof (induction xs arbitrary: i)
  case Nil
  then show ?case by simp
next
  case (Cons x xs)
  show ?case
  proof (cases i)
    case 0
    with Cons.prems show ?thesis by simp
  next
    case (Suc k)
    with Cons.prems have np: "\<not> p x" by auto
    from Suc Cons.prems have "findIndex p xs = int k"
      by (intro Cons.IH) auto
    with np Suc show ?thesis by (simp add: Let_def)
  qed
qed

lemma findIndex_absent: "\<forall>x\<in>set xs. \<not> p x \<Longrightarrow> findIndex p xs = - 1"
  by (induction xs) auto

lemma getIndexFromRoute_first:
  assumes "i < length (stepsOrder (options r))"
    and "stepsOrder (options r) ! i \<notin> set (take i (stepsOrder (options r)))"
  shows "getIndexFromRoute r (Str (stepsOrder (options r) ! i)) = int i"
  unfolding getIndexFromRoute_def
proof (rule findIndex_first)
  show "i < length (stepsOrder (options r))" by fact
  show "Str (stepsOrder (options r) ! i) = Str (stepsOrder (options r) ! i)" by simp
  show "\<forall>j<i. Str (stepsOrder (options r) ! j) \<noteq> Str (stepsOrder (options r) ! i)"
  proof (intro allI impI)
    fix j assume "j < i"
    with assms(1) have "stepsOrder (options r) ! j \<in> set (take i (stepsOrder (options r)))"
      by (auto simp: in_set_conv_nth intro!: exI [of _ j])
    with assms(2) show "Str (stepsOrder (options r) ! j) \<noteq> Str (stepsOrder (options r) ! i)"
      by auto
  qed
qed

lemma distinct_not_in_take:
  "distinct xs \<Longrightarrow> i < length xs \<Longrightarrow> xs ! i \<notin> set (take i xs)"
  by (auto simp: in_set_conv_nth nth_eq_iff_index_eq)

lemma getIndexFromRoute_distinct:
  "distinct (stepsOrder (options r)) \<Longrightarrow> i < length (stepsOrder (options r)) \<Longrightarrow>
   getIndexFromRoute r (Str (stepsOrder (options r) ! i)) = int i"
  by (simp add: getIndexFromRoute_first distinct_not_in_take)

lemma registry_ok_lookup:
  "registry_ok (options r) \<Longrightarrow> i < length (stepsOrder (options r)) \<Longrightarrow>
   \<exists>s. steps (options r) (stepsOrder (options r) ! i) = Some s \<and> route s = Str (stepsOrder (options r) ! i)"
  unfolding registry_ok_def list_all_length by (auto split: option.splits)

lemma next_at_position:
  assumes "i < length (stepsOrder (options r))"
    and "stepsOrder (options r) ! i \<notin> set (take i (stepsOrder (options r)))"
  shows "getNextStepRoute r (Str (stepsOrder (options r) ! i)) =
         (case steps (options r) (ToString (js_index (stepsOrder (options r)) (int i + 1))) of
            Some s \<Rightarrow> route s | None \<Rightarrow> Str ''end'')"
  by (simp add: getNextStepRoute_def lookup_step_def getIndexFromRoute_first [OF assms])

lemma previous_at_position:
  assumes "i < length (stepsOrder (options r))"
    and "stepsOrder (options r) ! i \<notin> set (take i (stepsOrder (options r)))"
  shows "getPreviousStepRoute r (Str (stepsOrder (options r) ! i)) =
         (case steps (options r) (ToString (js_index (stepsOrder (options r)) (int i - 1))) of
            Some s \<Rightarrow> route s | None \<Rightarrow> Str ''end'')"
  by (simp add: getPreviousStepRoute_def lookup_step_def getIndexFromRoute_first [OF assms])

lemma next_in_registry:
  assumes "registry_ok (options r)" and "i < length (stepsOrder (options r))"
  shows "getNextStepRoute r (Str (stepsOrder (options r) ! i)) =
         (if Suc i < length (stepsOrder (options r)) then Str (stepsOrder (options r) ! Suc i)
          else Str ''end'')"
proof -
  from assms(1) have d: "distinct (stepsOrder (options r))"
    and u: "steps (options r) ''undefined'' = None"
    by (simp_all add: registry_ok_def)
  note pos = next_at_position [OF assms(2) distinct_not_in_take [OF d assms(2)]]
  show ?thesis
  proof (cases "Suc i < length (stepsOrder (options r))")
    case True
    from registry_ok_lookup [OF assms(1) True] obtain s where
      "steps (options r) (stepsOrder (options r) ! Suc i) = Some s"
      "route s = Str (stepsOrder (options r) ! Suc i)" by blast
    with True pos show ?thesis
      by (simp add: js_index_def nat_add_distrib)
  next
    case False
    with pos u show ?thesis
      by (simp add: js_index_def)
  qed
qed

lemma previous_in_registry:
  assumes "registry_ok (options r)" and "i < length (stepsOrder (options r))"
  shows "getPreviousStepRoute r (Str (stepsOrder (options r) ! i)) =
         (if 0 < i then Str (stepsOrder (options r) ! (i - 1)) else Str ''end'')"
proof -
  from assms(1) have d: "distinct (stepsOrder (options r))"
    and u: "steps (options r) ''undefined'' = None"
    by (simp_all add: registry_ok_def)
  note pos = previous_at_position [OF assms(2) distinct_not_in_take [OF d assms(2)]]
  show ?thesis
  proof (cases "0 < i")
    case True
    then have lt: "i - 1 < length (stepsOrder (options r))" using assms(2) by simp
    from registry_ok_lookup [OF assms(1) lt] obtain s where
      "steps (options r) (stepsOrder (options r) ! (i - 1)) = Some s"
      "route s = Str (stepsOrder (options r) ! (i - 1))" by blast
    with True pos assms(2) show ?thesis
      by (simp add: js_index_def nat_diff_distrib)
  next
    case False
    with pos u show ?thesis
      by (simp add: js_index_def)
  qed
qed

lemma previous_of_first:
  assumes "stepsOrder (options r) \<noteq> []" and "steps (options r) ''undefined'' = None"
  shows "getPreviousStepRoute r (Str (hd (stepsOrder (options r)))) = Str ''end''"
proof -
  from assms(1) obtain x xs where "stepsOrder (options r) = x # xs"
    by (cases "stepsOrder (options r)") auto
  with assms(2) show ?thesis
    by (simp add: getPreviousStepRoute_def getIndexFromRoute_def lookup_step_def js_index_def)
qed

text \<open>
  A route that does not occur in \<open>stepsOrder\<close> has the index \<open>-1\<close>, so its next
  route is looked up at entry \<open>0\<close>.
\<close>

lemma next_of_absent_route:
  assumes "R \<notin> set (stepsOrder (options r))"
  shows "getNextStepRoute r (Str R) =
         (case lookup_step r (js_index (stepsOrder (options r)) 0) of
            Some s \<Rightarrow> route s | None \<Rightarrow> Str ''end'')"
proof -
  from assms have "\<forall>x\<in>set (stepsOrder (options r)). \<not> Str x = Str R" by auto
  then have "getIndexFromRoute r (Str R) = - 1"
    unfolding getIndexFromRoute_def by (rule findIndex_absent)
  then show ?thesis by (simp add: getNextStepRoute_def)
qed

lemma registry_ok_abc: "registry_ok abc_options"
  by (simp add: registry_ok_def abc_options_def plain_step_def)

text \<open>
  Why \<open>registry_ok\<close> asks that no step be registered under the name \<open>undefined\<close>: one
  entry past the end of \<open>stepsOrder\<close>, or one before its start, the code looks the step
  up under that name.
\<close>

lemma out_of_range_reads_the_undefined_key:
  "getNextStepRoute (Router undefined_options []) (Str ''c'') = Str ''x'' \<and>
   getPreviousStepRoute (Router undefined_options []) (Str ''a'') = Str ''x''"
  by (simp add: router_defs example_defs undefined_options_def)

subsection \<open>The two triggers, written out\<close>

lemma triggerNext_eq:
  "triggerNext r =
     (if getNextStepRoute r (currentRoute r) \<noteq> Str ''end''
      then (True, r\<lparr> reverseNavigation := False, previousRoute := currentRoute r,
                     hash := hash_of (ToString (getNextStepRoute r (currentRoute r))),
                     trace := trace r @ [Write_hash (getNextStepRoute r (currentRoute r))] \<rparr>)
      else (False, r\<lparr> reverseNavigation := False, previousRoute := currentRoute r \<rparr>))"
proof -
  have "getNextStepRoute (r\<lparr> reverseNavigation := False, previousRoute := currentRoute r \<rparr>) =
        getNextStepRoute r"
    by (simp add: fun_eq_iff getNextStepRoute_def lookup_step_def getIndexFromRoute_def)
  then show ?thesis by (simp add: triggerNext_def setRoute_def Let_def)
qed

lemma triggerPrevious_eq:
  "triggerPrevious r =
     r\<lparr> reverseNavigation := True, previousRoute := currentRoute r,
        hash := hash_of (ToString (getPreviousStepRoute r (currentRoute r))),
        trace := trace r @ [Write_hash (getPreviousStepRoute r (currentRoute r))] \<rparr>"
proof -
  have "getPreviousStepRoute (r\<lparr> reverseNavigation := True, previousRoute := currentRoute r \<rparr>) =
        getPreviousStepRoute r"
    by (simp add: fun_eq_iff getPreviousStepRoute_def lookup_step_def getIndexFromRoute_def)
  then show ?thesis by (simp add: triggerPrevious_def setRoute_def Let_def)
qed

subsection \<open>Single calls that return normally\<close>

lemma createStep_cases:
  "createStep rt r =
     (case getDatasFromCache (options r) [rt] of
        Exn x \<Rightarrow> (Exn x, r)
      | Ok stepDatas \<Rightarrow>
          (case lookup_step r rt of
             None \<Rightarrow> (Exn TypeError, r)
           | Some s \<Rightarrow>
               (case render_argument stepDatas rt of
                  Exn x \<Rightarrow> (Exn x, r)
                | Ok d \<Rightarrow>
                    (case render s d of
                       Exn x \<Rightarrow> (Exn x, r\<lparr> trace := trace r @ [Call_render (ToString rt) d] \<rparr>)
                     | Ok u \<Rightarrow> (Ok (), r\<lparr> trace := trace r @ [Call_render (ToString rt) d],
                                          applicationReady := True \<rparr>)))))"
  by (simp add: createStep_def Let_def split: res.splits option.splits)

lemma createStep_returns:
  assumes "lookup_step r rt = Some s" and "getDatasFromCache (options r) [rt] = Ok sd"
    and "render_argument sd rt = Ok d" and "render s d = Ok ()"
  shows "createStep rt r =
           (Ok (), r\<lparr> trace := trace r @ [Call_render (ToString rt) d],
                       applicationReady := True \<rparr>)"
  using assms by (simp add: createStep_cases)



lemma checkIfTheStepCanBeDisplay_state:
  "snd (checkIfTheStepCanBeDisplay rt e r) =
     (case steps (options r) rt of
        Some s \<Rightarrow> r\<lparr> trace := trace r @ [Call_canTheStepBeDisplayed rt] \<rparr>
      | None \<Rightarrow> r)"
  by (simp add: checkIfTheStepCanBeDisplay_def Let_def split: option.splits)

lemma checkIfTheStepCanBeDisplay_unregistered_previous:
  assumes "steps (options r) rt = None" and "getPreviousRoute e = Str p" and "p \<noteq> []"
    and "steps (options r) p = None"
  shows "checkIfTheStepCanBeDisplay rt e r = (Exn TypeError, r)"
  using assms by (simp add: checkIfTheStepCanBeDisplay_def lookup_step_def)

lemma stepCanBeDisplayed_event:
  "stepCanBeDisplayed (Some ev) r =
     (let p = (if redirect (stepRedirected r) then marker_previousRoute (stepRedirected r)
               else getPreviousRoute (Some ev))
      in if truthy p then
           and_then (destroyStep p (r\<lparr> previousRoute := p \<rparr>))
             (\<lambda>r2. and_then (createStep (currentRoute r2) r2)
                (\<lambda>r3. createIfNotCreated (r3\<lparr> stepCreated := True \<rparr>)))
         else createIfNotCreated (r\<lparr> previousRoute := p \<rparr>))"
  by (simp add: stepCanBeDisplayed_def Let_def)

subsection \<open>Every method only extends the log and keeps the options\<close>

lemma evolves_refl: "evolves r r"
  by (simp add: evolves_def)

lemma evolves_trans:
  assumes "evolves r r1" and "evolves r1 r2"
  shows "evolves r r2"
proof -
  from assms(1) obtain t1 where o1: "options r1 = options r"
    and m1: "applicationReady r \<longrightarrow> applicationReady r1"
    and t1: "trace r1 = trace r @ t1"
    and w1: "applicationReady r1 \<and> \<not> applicationReady r \<longrightarrow>
             (\<exists>k d s. Call_render k d \<in> set t1 \<and> steps (options r) k = Some s \<and> render s d = Ok ())"
    unfolding evolves_def by blast
  from assms(2) obtain t2 where o2: "options r2 = options r1"
    and m2: "applicationReady r1 \<longrightarrow> applicationReady r2"
    and t2: "trace r2 = trace r1 @ t2"
    and w2: "applicationReady r2 \<and> \<not> applicationReady r1 \<longrightarrow>
             (\<exists>k d s. Call_render k d \<in> set t2 \<and> steps (options r1) k = Some s \<and> render s d = Ok ())"
    unfolding evolves_def by blast
  have "trace r2 = trace r @ (t1 @ t2)" using t1 t2 by simp
  moreover have "applicationReady r2 \<and> \<not> applicationReady r \<longrightarrow>
     (\<exists>k d s. Call_render k d \<in> set (t1 @ t2) \<and> steps (options r) k = Some s \<and> render s d = Ok ())"
  proof (intro impI)
    assume a: "applicationReady r2 \<and> \<not> applicationReady r"
    show "\<exists>k d s. Call_render k d \<in> set (t1 @ t2) \<and> steps (options r) k = Some s \<and> render s d = Ok ()"
    proof (cases "applicationReady r1")
      case True
      with a w1 show ?thesis by auto
    next
      case False
      with a w2 o1 show ?thesis by auto
    qed
  qed
  ultimately show ?thesis
    unfolding evolves_def using o1 o2 m1 m2 by (intro conjI exI [of _ "t1 @ t2"]) auto
qed

lemma evolves_same:
  "options r' = options r \<Longrightarrow> applicationReady r' = applicationReady r \<Longrightarrow> trace r' = trace r \<Longrightarrow>
   evolves r r'"
  by (simp add: evolves_def)

lemma evolves_logged:
  "options r' = options r \<Longrightarrow> applicationReady r' = applicationReady r \<Longrightarrow> trace r' = trace r @ t \<Longrightarrow>
   evolves r r'"
  by (simp add: evolves_def)

lemma evolves_rendered:
  assumes "options r' = options r" and "applicationReady r'" and "trace r' = trace r @ [Call_render k d]"
    and "steps (options r) k = Some s" and "render s d = Ok ()"
  shows "evolves r r'"
  unfolding evolves_def
proof (intro conjI exI [of _ "[Call_render k d]"] impI)
  show "\<exists>k' d' s'. Call_render k' d' \<in> set [Call_render k d] \<and>
          steps (options r) k' = Some s' \<and> render s' d' = Ok ()"
    using assms(4,5) by (intro exI [of _ k] exI [of _ d] exI [of _ s]) simp
qed (use assms in simp_all)

lemma evolves_setRoute: "evolves r (setRoute v r)"
  by (rule evolves_logged [where t = "[Write_hash v]"]) (simp_all add: setRoute_def)

lemma evolves_createStep: "evolves r (snd (createStep rt r))"
proof (cases "getDatasFromCache (options r) [rt]")
  case (Exn x)
  then show ?thesis by (simp add: createStep_cases evolves_refl)
next
  case (Ok sd)
  show ?thesis
  proof (cases "lookup_step r rt")
    case None
    with Ok show ?thesis by (simp add: createStep_cases evolves_refl)
  next
    case (Some s)
    show ?thesis
    proof (cases "render_argument sd rt")
      case (Exn x)
      with Ok Some show ?thesis by (simp add: createStep_cases evolves_refl)
    next
      case d: (Ok d)
      show ?thesis
      proof (cases "render s d")
        case (Exn x)
        have "evolves r (r\<lparr> trace := trace r @ [Call_render (ToString rt) d] \<rparr>)"
          by (rule evolves_logged [where t = "[Call_render (ToString rt) d]"]) simp_all
        with Ok Some d Exn show ?thesis by (simp add: createStep_cases)
      next
        case r: (Ok u)
        from Some have st: "steps (options r) (ToString rt) = Some s" by (simp add: lookup_step_def)
        have "evolves r (r\<lparr> trace := trace r @ [Call_render (ToString rt) d],
                              applicationReady := True \<rparr>)"
          by (rule evolves_rendered [where k = "ToString rt" and d = d and s = s])
            (simp_all add: st r)
        with Ok Some d r show ?thesis by (simp add: createStep_cases)
      qed
    qed
  qed
qed

lemma evolves_destroyStep: "evolves r (snd (destroyStep rt r))"
proof (cases "lookup_step r rt")
  case None
  then show ?thesis by (simp add: destroyStep_def evolves_refl)
next
  case (Some s)
  have "evolves r (r\<lparr> trace := trace r @ [Call_destroy (ToString rt)] \<rparr>)"
    by (rule evolves_logged [where t = "[Call_destroy (ToString rt)]"]) simp_all
  with Some show ?thesis by (simp add: destroyStep_def)
qed

lemma evolves_and_then:
  assumes "evolves r (snd m)" and "\<And>r1. evolves r1 (snd (f r1))"
  shows "evolves r (snd (and_then m f))"
proof (cases m)
  case (Pair x r1)
  show ?thesis
  proof (cases x)
    case (Ok u)
    from Pair assms(1) have "evolves r r1" by simp
    then have "evolves r (snd (f r1))" using assms(2) [of r1] by (rule evolves_trans)
    with Pair Ok show ?thesis by (simp add: and_then_def)
  next
    case (Exn e)
    with Pair assms(1) show ?thesis by (simp add: and_then_def)
  qed
qed

lemma evolves_resetMarker: "evolves r (snd (resetMarker r))"
proof (cases "redirect (stepRedirected r)")
  case True
  have "evolves r (r\<lparr> stepRedirected := (stepRedirected r)\<lparr> redirect := False \<rparr> \<rparr>)"
    by (rule evolves_same) simp_all
  with True show ?thesis by (simp add: resetMarker_def)
next
  case False
  then show ?thesis by (simp add: resetMarker_def evolves_refl)
qed

lemma evolves_createIfNotCreated: "evolves r (snd (createIfNotCreated r))"
  unfolding createIfNotCreated_def
  by (simp add: evolves_resetMarker evolves_and_then evolves_createStep)

lemma evolves_stepCanBeDisplayed: "evolves r (snd (stepCanBeDisplayed e r))"
proof (cases e)
  case None
  then show ?thesis by (simp add: stepCanBeDisplayed_def evolves_createIfNotCreated)
next
  case (Some ev)
  define p where "p = (if redirect (stepRedirected r) then marker_previousRoute (stepRedirected r)
               else getPreviousRoute (Some ev))"
  have eq: "stepCanBeDisplayed (Some ev) r =
     (if truthy p then
           and_then (destroyStep p (r\<lparr> previousRoute := p \<rparr>))
             (\<lambda>r2. and_then (createStep (currentRoute r2) r2)
                (\<lambda>r3. createIfNotCreated (r3\<lparr> stepCreated := True \<rparr>)))
         else createIfNotCreated (r\<lparr> previousRoute := p \<rparr>))"
    unfolding stepCanBeDisplayed_event p_def Let_def ..
  have a: "evolves r (r\<lparr> previousRoute := p \<rparr>)" by (rule evolves_same) simp_all
  have s: "\<And>r3. evolves r3 (snd (createIfNotCreated (r3\<lparr> stepCreated := True \<rparr>)))"
  proof -
    fix r3
    have "evolves r3 (r3\<lparr> stepCreated := True \<rparr>)" by (rule evolves_same) simp_all
    then show "evolves r3 (snd (createIfNotCreated (r3\<lparr> stepCreated := True \<rparr>)))"
      using evolves_createIfNotCreated by (rule evolves_trans)
  qed
  have "evolves (r\<lparr> previousRoute := p \<rparr>)
          (snd (and_then (destroyStep p (r\<lparr> previousRoute := p \<rparr>))
               (\<lambda>r2. and_then (createStep (currentRoute r2) r2)
                  (\<lambda>r3. createIfNotCreated (r3\<lparr> stepCreated := True \<rparr>)))))"
    by (intro evolves_and_then evolves_destroyStep evolves_createStep s)
  with a have c: "evolves r
          (snd (and_then (destroyStep p (r\<lparr> previousRoute := p \<rparr>))
               (\<lambda>r2. and_then (createStep (currentRoute r2) r2)
                  (\<lambda>r3. createIfNotCreated (r3\<lparr> stepCreated := True \<rparr>)))))"
    by (rule evolves_trans)
  from a evolves_createIfNotCreated
  have b: "evolves r (snd (createIfNotCreated (r\<lparr> previousRoute := p \<rparr>)))"
    by (rule evolves_trans)
  show ?thesis unfolding Some eq using b c by simp
qed

lemma evolves_stepCantBeDisplayed: "evolves r (stepCantBeDisplayed e fb r)"
proof -
  let ?r1 = "r\<lparr> stepRedirected :=
                   \<lparr> redirect = True, marker_previousRoute = getPreviousRoute e \<rparr>,
                 previousRoute := Null \<rparr>"
  have a: "evolves r ?r1" by (rule evolves_same) simp_all
  have "evolves ?r1 (setRoute fb ?r1)" by (rule evolves_setRoute)
  with a have "evolves r (setRoute fb ?r1)" by (rule evolves_trans)
  with a show ?thesis by (simp add: stepCantBeDisplayed_def Let_def)
qed

lemma evolves_checkIfTheStepCanBeDisplay:
  "evolves r (snd (checkIfTheStepCanBeDisplay rt e r))"
proof (cases "steps (options r) rt")
  case None
  then show ?thesis by (simp add: checkIfTheStepCanBeDisplay_state evolves_refl)
next
  case (Some s)
  have "evolves r (r\<lparr> trace := trace r @ [Call_canTheStepBeDisplayed rt] \<rparr>)"
    by (rule evolves_logged [where t = "[Call_canTheStepBeDisplayed rt]"]) simp_all
  with Some show ?thesis by (simp add: checkIfTheStepCanBeDisplay_state)
qed

lemma evolves_hashChanged: "evolves r (snd (hashChanged e r))"
proof (cases "checkIfTheStepCanBeDisplay (getRoute r) e r")
  case (Pair x r1)
  then have a: "evolves r r1"
    using evolves_checkIfTheStepCanBeDisplay [of r "getRoute r" e] by simp
  show ?thesis
  proof (cases x)
    case (Exn err)
    with Pair a show ?thesis by (simp add: hashChanged_def Let_def)
  next
    case (Ok datas)
    let ?r2 = "r1\<lparr> currentRoute := Str (getRoute r) \<rparr>"
    have "evolves r1 ?r2" by (rule evolves_same) simp_all
    with a have b: "evolves r ?r2" by (rule evolves_trans)
    from b evolves_stepCanBeDisplayed [of ?r2 e]
    have c: "evolves r (snd (stepCanBeDisplayed e ?r2))" by (rule evolves_trans)
    from b evolves_stepCantBeDisplayed [of ?r2 e "verdict_fallbackRoute datas"]
    have d: "evolves r (stepCantBeDisplayed e (verdict_fallbackRoute datas) ?r2)"
      by (rule evolves_trans)
    from Pair Ok c d show ?thesis by (simp add: hashChanged_def Let_def)
  qed
qed

lemma evolves_triggerNext: "evolves r (snd (triggerNext r))"
proof (cases "getNextStepRoute r (currentRoute r) \<noteq> Str ''end''")
  case True
  have "evolves r (r\<lparr> reverseNavigation := False, previousRoute := currentRoute r,
                     hash := hash_of (ToString (getNextStepRoute r (currentRoute r))),
                     trace := trace r @ [Write_hash (getNextStepRoute r (currentRoute r))] \<rparr>)"
    by (rule evolves_logged [where t = "[Write_hash (getNextStepRoute r (currentRoute r))]"])
      simp_all
  with True show ?thesis by (simp add: triggerNext_eq)
next
  case False
  have "evolves r (r\<lparr> reverseNavigation := False, previousRoute := currentRoute r \<rparr>)"
    by (rule evolves_same) simp_all
  with False show ?thesis by (simp add: triggerNext_eq)
qed

lemma evolves_triggerPrevious: "evolves r (triggerPrevious r)"
  unfolding triggerPrevious_eq
  by (rule evolves_logged [where t = "[Write_hash (getPreviousStepRoute r (currentRoute r))]"])
    simp_all

lemma evolves_init: "evolves r (snd (init r))"
proof -
  let ?r2 = "(addEvents r)\<lparr> currentRoute :=
      (if getRoute (addEvents r) = [] then defaultRoute (options (addEvents r))
       else Str (getRoute (addEvents r))) \<rparr>"
  have a: "evolves r ?r2" by (rule evolves_same) (simp_all add: addEvents_def)
  from a evolves_setRoute [of ?r2 "currentRoute ?r2"]
  have b: "evolves r (setRoute (currentRoute ?r2) ?r2)" by (rule evolves_trans)
  from a evolves_hashChanged [of ?r2 None]
  have c: "evolves r (snd (hashChanged None ?r2))" by (rule evolves_trans)
  show ?thesis
  proof (cases "getRoute (addEvents r) = []")
    case True
    with b show ?thesis by (simp add: init_def Let_def)
  next
    case False
    with c show ?thesis by (simp add: init_def Let_def)
  qed
qed

lemma evolves_exec: "evolves r (exec x r)"
proof (cases x)
  case Op_addEvents
  then show ?thesis by (simp add: addEvents_def evolves_same)
next
  case Op_destroy
  then show ?thesis by (simp add: destroy_router_def evolves_same)
next
  case (Env_location h)
  then show ?thesis by (simp add: evolves_same)
qed (simp_all add: evolves_init evolves_hashChanged evolves_stepCanBeDisplayed
      evolves_stepCantBeDisplayed evolves_checkIfTheStepCanBeDisplay evolves_createStep
      evolves_destroyStep evolves_triggerNext evolves_triggerPrevious evolves_setRoute)

lemma evolves_run: "evolves r (run xs r)"
proof (induction xs arbitrary: r)
  case Nil
  show ?case by (simp add: evolves_refl)
next
  case (Cons x xs)
  from evolves_exec [of r x] Cons.IH [of "exec x r"] show ?case
    by (simp add: evolves_trans)
qed

lemma run_opts: "options (run xs r) = options r"
  using evolves_run [of r xs] by (simp add: evolves_def)

lemma opts_at_a: "options at_a = abc_options"
  unfolding at_a_def run_opts by (simp add: Router_def)

lemma opts_at_c: "options at_c = abc_options"
  unfolding at_c_def run_opts by (simp add: Router_def)


lemma opts_entering_c: "options entering_c = guarded_options"
  unfolding entering_c_def run_opts by (simp add: Router_def)

subsection \<open>The calls of one transition\<close>

text \<open>
  Whatever the collaborators answer or throw, one \<open>hashChanged\<close> calls \<open>destroy\<close> at most
  once and \<open>render\<close> at most once, and never \<open>render\<close> before \<open>destroy\<close>.
\<close>

lemma createStep_log:
  "\<exists>ys. trace (snd (createStep rt r)) = trace r @ ys \<and>
        (ys = [] \<or> (\<exists>d. ys = [Call_render (ToString rt) d]))"
  by (simp add: createStep_cases split: res.splits option.splits)

lemma destroyStep_log:
  "\<exists>ys. trace (snd (destroyStep rt r)) = trace r @ ys \<and>
        (ys = [] \<and> fst (destroyStep rt r) \<noteq> Ok () \<or> ys = [Call_destroy (ToString rt)])"
  by (simp add: destroyStep_def split: option.splits)

lemma resetMarker_log: "trace (snd (resetMarker r)) = trace r"
  by (simp add: resetMarker_def)

lemma createIfNotCreated_log:
  "\<exists>ys. trace (snd (createIfNotCreated r)) = trace r @ ys \<and>
        (ys = [] \<or> (\<exists>d. ys = [Call_render (ToString (currentRoute r)) d]))"
proof (cases "stepCreated r")
  case True
  then show ?thesis by (simp add: createIfNotCreated_def resetMarker_log)
next
  case False
  obtain x r1 where c: "createStep (currentRoute r) r = (x, r1)"
    by (cases "createStep (currentRoute r) r")
  from createStep_log [of "currentRoute r" r] c
  have l: "\<exists>ys. trace r1 = trace r @ ys \<and>
        (ys = [] \<or> (\<exists>d. ys = [Call_render (ToString (currentRoute r)) d]))" by simp
  have "trace (snd (createIfNotCreated r)) = trace r1"
    using False c by (cases x) (simp_all add: createIfNotCreated_def and_then_def resetMarker_log)
  with l show ?thesis by simp
qed

lemma stepCanBeDisplayed_log:
  "\<exists>ys. trace (snd (stepCanBeDisplayed e r)) = trace r @ ys \<and> list_all is_lifecycle ys \<and>
        destroy_then_render ys"
proof (cases e)
  case None
  from createIfNotCreated_log [of r] obtain ys where
    "trace (snd (createIfNotCreated r)) = trace r @ ys"
    "ys = [] \<or> (\<exists>d. ys = [Call_render (ToString (currentRoute r)) d])" by blast
  with None show ?thesis by (auto simp add: stepCanBeDisplayed_def)
next
  case (Some ev)
  define p where "p = (if redirect (stepRedirected r) then marker_previousRoute (stepRedirected r)
               else getPreviousRoute (Some ev))"
  define r1 where "r1 = r\<lparr> previousRoute := p \<rparr>"
  have eq: "stepCanBeDisplayed (Some ev) r =
     (if truthy p then
           and_then (destroyStep p r1)
             (\<lambda>r2. and_then (createStep (currentRoute r2) r2)
                (\<lambda>r3. createIfNotCreated (r3\<lparr> stepCreated := True \<rparr>)))
         else createIfNotCreated r1)"
    unfolding stepCanBeDisplayed_event p_def r1_def Let_def ..
  have t1: "trace r1 = trace r" by (simp add: r1_def)
  show ?thesis
  proof (cases "truthy p")
    case False
    from createIfNotCreated_log [of r1] obtain ys where
      "trace (snd (createIfNotCreated r1)) = trace r1 @ ys"
      "ys = [] \<or> (\<exists>d. ys = [Call_render (ToString (currentRoute r1)) d])" by blast
    with False t1 show ?thesis unfolding Some eq by auto
  next
    case True
    obtain x r2 where d: "destroyStep p r1 = (x, r2)" by (cases "destroyStep p r1")
    from destroyStep_log [of p r1] d obtain ys where
      ys: "trace r2 = trace r1 @ ys"
      "ys = [] \<and> x \<noteq> Ok () \<or> ys = [Call_destroy (ToString p)]" by auto
    show ?thesis
    proof (cases x)
      case (Exn err)
      with True d have "snd (stepCanBeDisplayed (Some ev) r) = r2"
        unfolding eq by (simp add: and_then_def)
      with ys t1 show ?thesis unfolding Some by auto
    next
      case (Ok u)
      with ys have ysd: "ys = [Call_destroy (ToString p)]" by auto
      obtain y r3 where c: "createStep (currentRoute r2) r2 = (y, r3)"
        by (cases "createStep (currentRoute r2) r2")
      from createStep_log [of "currentRoute r2" r2] c obtain zs where
        zs: "trace r3 = trace r2 @ zs"
        "zs = [] \<or> (\<exists>d. zs = [Call_render (ToString (currentRoute r2)) d])" by auto
      have "trace (snd (stepCanBeDisplayed (Some ev) r)) = trace r3"
      proof (cases y)
        case (Exn err)
        with True d Ok c show ?thesis unfolding eq by (simp add: and_then_def)
      next
        case y: (Ok v)
        have "trace (snd (createIfNotCreated (r3\<lparr> stepCreated := True \<rparr>))) = trace r3"
          by (simp add: createIfNotCreated_def resetMarker_log)
        with True d Ok c y show ?thesis unfolding eq by (simp add: and_then_def)
      qed
      with ys(1) ysd zs t1 show ?thesis unfolding Some by auto
    qed
  qed
qed

lemma hashChanged_calls_in_order:
  "destroy_then_render (new_calls r (snd (hashChanged e r)))"
proof -
  obtain x r1 where ck: "checkIfTheStepCanBeDisplay (getRoute r) e r = (x, r1)"
    by (cases "checkIfTheStepCanBeDisplay (getRoute r) e r")
  then have "r1 = snd (checkIfTheStepCanBeDisplay (getRoute r) e r)" by simp
  then have r1: "r1 = (case steps (options r) (getRoute r) of
        Some s \<Rightarrow> r\<lparr> trace := trace r @ [Call_canTheStepBeDisplayed (getRoute r)] \<rparr>
      | None \<Rightarrow> r)"
    by (simp only: checkIfTheStepCanBeDisplay_state)
  then obtain xs where xs: "trace r1 = trace r @ xs" "filter is_lifecycle xs = []"
    by (cases "steps (options r) (getRoute r)") auto
  show ?thesis
  proof (cases x)
    case (Exn err)
    with ck xs show ?thesis by (simp add: hashChanged_def new_calls_def)
  next
    case (Ok datas)
    define r2 where "r2 = r1\<lparr> currentRoute := Str (getRoute r) \<rparr>"
    have t2: "trace r2 = trace r @ xs" using xs(1) by (simp add: r2_def)
    show ?thesis
    proof (cases "canBeDisplayed datas")
      case True
      with ck Ok have h: "hashChanged e r = stepCanBeDisplayed e r2"
        by (simp add: hashChanged_def Let_def r2_def)
      from stepCanBeDisplayed_log [of e r2] obtain ys where
        ys: "trace (snd (stepCanBeDisplayed e r2)) = trace r2 @ ys" "list_all is_lifecycle ys"
        "destroy_then_render ys" by blast
      from ys(2) have "filter is_lifecycle ys = ys" by (simp add: list_all_iff)
      with h t2 ys(1,3) xs(2) show ?thesis by (simp add: new_calls_def)
    next
      case False
      with ck Ok have h: "snd (hashChanged e r) =
          stepCantBeDisplayed e (verdict_fallbackRoute datas) r2"
        by (simp add: hashChanged_def Let_def r2_def)
      have "trace (stepCantBeDisplayed e (verdict_fallbackRoute datas) r2) = trace r2 \<or>
            trace (stepCantBeDisplayed e (verdict_fallbackRoute datas) r2) =
              trace r2 @ [Write_hash (verdict_fallbackRoute datas)]"
        by (simp add: stepCantBeDisplayed_def setRoute_def Let_def)
      with h t2 xs(2) show ?thesis by (auto simp add: new_calls_def)
    qed
  qed
qed

section \<open>The claims\<close>

subsection \<open>C1: an unknown route reached from an unknown route\<close>

text \<open>
  Claim C1 says: when neither the candidate route nor the prior location token is a
  registered route, and the prior token is a string, the gate answers ``not displayable,
  fall back to the default route'' and raises nothing.

  The code does not do that for a non-empty prior token. In its branch for an unknown
  route, \<open>checkIfTheStepCanBeDisplay\<close> reads \<open>steps[previousRoute].fallbackRoute\<close>
  without having tested \<open>steps[previousRoute]\<close> (line 149), although the same method
  does test \<open>steps[route]\<close> (line 138): the read is a \<open>TypeError\<close>, which also leaves
  \<open>hashChanged\<close>. The theorem evaluates the code where this happens: a router without a
  default route was loaded on the unknown route \<open>yyy\<close> and has stayed there, and the
  location moves to \<open>zzz\<close>.
\<close>

theorem unregistered_previous_token_raises:
  "getRoute stuck_then_moved = ''zzz'' \<and>
   getPreviousRoute (Some (HashChangeEvent ''http://h/#yyy'')) = Str ''yyy'' \<and>
   defaultRoute (options stuck_then_moved) = Null \<and>
   fst (checkIfTheStepCanBeDisplay ''zzz'' (Some (HashChangeEvent ''http://h/#yyy''))
          stuck_then_moved) = Exn TypeError \<and>
   fst (hashChanged (Some (HashChangeEvent ''http://h/#yyy'')) stuck_then_moved)
     = Exn TypeError"
  by code_simp

subsection \<open>C2: the next route\<close>

text \<open>
  Claim C2 says that for every route \<open>R\<close> and every registry \<open>getNextStepRoute\<close> returns
  the entry of \<open>stepsOrder\<close> after \<open>R\<close>, and \<open>end\<close> when \<open>R\<close> is absent or last.
  As stated it fails in three ways. For a route that is absent, \<open>findIndex\<close> gives
  \<open>-1\<close> and the code reads entry \<open>-1 + 1 = 0\<close>: the answer is the first route, not
  \<open>end\<close>. The answer is the \<open>route\<close> property of the step registered for the next
  entry, which is \<open>undefined\<close> for a step that has no such property. And for the last
  entry the code looks for a step named \<open>undefined\<close>, and answers with its route when
  there is one.
\<close>

theorem getNextStepRoute_counterexample:
  "''zzz'' \<notin> set (stepsOrder abc_options) \<and>
   steps abc_options ''zzz'' = None \<and>
   getNextStepRoute (Router abc_options []) (Str ''zzz'') = Str ''a'' \<and>
   getNextStepRoute (Router abc_options []) (Str ''zzz'') \<noteq> Str ''end'' \<and>
   js_index (stepsOrder unrouted_options) 1 = Str ''b'' \<and>
   getNextStepRoute (Router unrouted_options []) (Str ''a'') = Undefined \<and>
   last (stepsOrder undefined_options) = ''c'' \<and>
   getNextStepRoute (Router undefined_options []) (Str ''c'') = Str ''x''"
  by (simp add: router_defs example_defs undefined_options_def)

text \<open>
  Claim C2, amended: in a registry that satisfies \<open>registry_ok\<close> (no route twice in
  \<open>stepsOrder\<close>, each registered with a step whose \<open>route\<close> property is that route,
  no step registered under the name \<open>undefined\<close>), for every
  route of \<open>stepsOrder\<close>, \<open>getNextStepRoute\<close> returns the entry that follows it, and
  \<open>end\<close> when it is the last entry. Nothing is said about a route that is absent.
\<close>

theorem getNextStepRoute_in_registry:
  assumes "registry_ok (options r)" and "i < length (stepsOrder (options r))"
  shows "getNextStepRoute r (Str (stepsOrder (options r) ! i)) =
         (if Suc i < length (stepsOrder (options r)) then Str (stepsOrder (options r) ! Suc i)
          else Str ''end'')"
  using assms by (rule next_in_registry)

theorem getNextStepRoute_in_registry_witness:
  "registry_ok (options (Router abc_options [])) \<and>
   (1::nat) < length (stepsOrder (options (Router abc_options []))) \<and>
   (2::nat) < length (stepsOrder (options (Router abc_options []))) \<and>
   getNextStepRoute (Router abc_options []) (Str ''b'') = Str ''c'' \<and>
   getNextStepRoute (Router abc_options []) (Str ''c'') = Str ''end''"
proof -
  have ok: "registry_ok (options (Router abc_options []))"
    by (simp add: Router_def registry_ok_abc)
  have l1: "(1::nat) < length (stepsOrder (options (Router abc_options [])))"
    and l2: "(2::nat) < length (stepsOrder (options (Router abc_options [])))"
    by (simp_all add: Router_def abc_options_def)
  from getNextStepRoute_in_registry [OF ok l1] getNextStepRoute_in_registry [OF ok l2]
  have "getNextStepRoute (Router abc_options []) (Str ''b'') = Str ''c''"
    and "getNextStepRoute (Router abc_options []) (Str ''c'') = Str ''end''"
    by (simp_all add: Router_def abc_options_def)
  with ok l1 l2 show ?thesis by blast
qed

subsection \<open>C3: an allowed transition with no previous route\<close>

text \<open>
  Claim C3 says that an allowed transition which carries a navigation event and resolves
  no previous route skips \<open>destroy\<close> and still renders the step of the current route,
  whatever earlier transitions did: \<open>stepCreated\<close> is a flag of one transition.

  In the code \<open>stepCreated\<close> is set on line 97 and never cleared, and line 102 renders only
  when it is false (``if destroy method was not called, create the step now''). After the
  first transition that destroyed and rendered, a transition without a previous route
  renders nothing. The theorem evaluates the code in such a state, \<open>redirected_twice\<close>:
  the gate allows \<open>a\<close>, the pending redirect marker remembers the empty route, the flag
  is set; \<open>hashChanged\<close> returns normally and has called neither \<open>destroy\<close> nor
  \<open>render\<close>, so the current route is \<open>a\<close> while the last step rendered is \<open>b\<close>.
\<close>

theorem created_flag_is_never_reset:
  "getRoute redirected_twice = ''a'' \<and>
   fst (checkIfTheStepCanBeDisplay ''a'' (Some (HashChangeEvent ''http://h/#c'')) redirected_twice)
     = Ok \<lparr> canBeDisplayed = True, verdict_fallbackRoute = Undefined \<rparr> \<and>
   redirect (stepRedirected redirected_twice) \<and>
   marker_previousRoute (stepRedirected redirected_twice) = Str [] \<and>
   stepCreated redirected_twice \<and>
   lifecycle_calls redirected_twice
     = [Call_render ''a'' Null, Call_destroy ''a'', Call_render ''b'' Null] \<and>
   fst (hashChanged (Some (HashChangeEvent ''http://h/#c'')) redirected_twice) = Ok () \<and>
   currentRoute (snd (hashChanged (Some (HashChangeEvent ''http://h/#c'')) redirected_twice))
     = Str ''a'' \<and>
   lifecycle_calls (snd (hashChanged (Some (HashChangeEvent ''http://h/#c'')) redirected_twice))
     = [Call_render ''a'' Null, Call_destroy ''a'', Call_render ''b'' Null]"
  by code_simp

subsection \<open>C4: an allowed transition with a previous route\<close>




subsection \<open>C5: \<open>applicationReady\<close>\<close>

text \<open>
  Claim C5: \<open>applicationReady\<close> is monotone. Once true it stays true through any
  sequence of router methods (and moves of the location); a \<open>render\<close> that \<open>createStep\<close>
  calls and that returns normally makes it true; and when a sequence of methods has
  turned it from false to true, that sequence has made a call of \<open>render\<close> that returned
  normally.
\<close>

theorem applicationReady_monotone:
  "(applicationReady r \<longrightarrow> applicationReady (run xs r)) \<and>
   (lookup_step r rt = Some s \<and> getDatasFromCache (options r) [rt] = Ok sd \<and>
    render_argument sd rt = Ok d \<and> render s d = Ok () \<longrightarrow>
      fst (createStep rt r) = Ok () \<and> applicationReady (snd (createStep rt r))) \<and>
   (\<not> applicationReady r \<and> applicationReady (run xs r) \<longrightarrow>
      (\<exists>k d' s'. Call_render k d' \<in> set (drop (length (trace r)) (trace (run xs r))) \<and>
                 steps (options r) k = Some s' \<and> render s' d' = Ok ()))"
proof (intro conjI impI)
  assume "applicationReady r"
  with evolves_run [of r xs] show "applicationReady (run xs r)"
    by (simp add: evolves_def)
next
  assume a: "lookup_step r rt = Some s \<and> getDatasFromCache (options r) [rt] = Ok sd \<and>
    render_argument sd rt = Ok d \<and> render s d = Ok ()"
  then have "lookup_step r rt = Some s" and "getDatasFromCache (options r) [rt] = Ok sd"
    and "render_argument sd rt = Ok d" and "render s d = Ok ()"
    by blast+
  then have c: "createStep rt r =
           (Ok (), r\<lparr> trace := trace r @ [Call_render (ToString rt) d],
                       applicationReady := True \<rparr>)"
    by (rule createStep_returns)
  from c show "fst (createStep rt r) = Ok ()" by simp
  from c show "applicationReady (snd (createStep rt r))" by simp
next
  assume a: "\<not> applicationReady r \<and> applicationReady (run xs r)"
  from evolves_run [of r xs] obtain t where t: "trace (run xs r) = trace r @ t"
    and w: "applicationReady (run xs r) \<and> \<not> applicationReady r \<longrightarrow>
             (\<exists>k d s. Call_render k d \<in> set t \<and> steps (options r) k = Some s \<and> render s d = Ok ())"
    unfolding evolves_def by blast
  from t have "drop (length (trace r)) (trace (run xs r)) = t" by simp
  with a w show "\<exists>k d' s'. Call_render k d' \<in> set (drop (length (trace r)) (trace (run xs r))) \<and>
                 steps (options r) k = Some s' \<and> render s' d' = Ok ()"
    by simp
qed

theorem applicationReady_monotone_witness:
  "applicationReady at_a \<and>
   applicationReady (run [Op_triggerPrevious, Op_hashChanged None, Op_destroy] at_a) \<and>
   \<not> applicationReady (Router abc_options ''#a'') \<and>
   applicationReady (run [Op_init] (Router abc_options ''#a'')) \<and>
   (\<exists>k d s. Call_render k d \<in> set (drop (length (trace (Router abc_options ''#a'')))
                                   (trace (run [Op_init] (Router abc_options ''#a'')))) \<and>
            steps (options (Router abc_options ''#a'')) k = Some s \<and> render s d = Ok ()) \<and>
   fst (createStep (Str ''a'') (Router abc_options ''#a'')) = Ok () \<and>
   applicationReady (snd (createStep (Str ''a'') (Router abc_options ''#a'')))"
proof -
  let ?r0 = "Router abc_options ''#a''"
  have ra: "applicationReady at_a" by code_simp
  have n0: "\<not> applicationReady ?r0" by (simp add: Router_def)
  have r1: "applicationReady (run [Op_init] ?r0)" by code_simp
  have l: "lookup_step ?r0 (Str ''a'') = Some (plain_step ''a'')"
    by (simp add: lookup_step_def Router_def abc_options_def)
  have g: "getDatasFromCache (options ?r0) [Str ''a''] = Ok None"
    by (simp add: Router_def abc_options_def)
  have a: "render_argument None (Str ''a'') = Ok Null" by (simp add: render_argument_def)
  have d: "render (plain_step ''a'') Null = Ok ()" by (simp add: plain_step_def)
  from applicationReady_monotone
    [of at_a "[Op_triggerPrevious, Op_hashChanged None, Op_destroy]"] ra
  have 1: "applicationReady (run [Op_triggerPrevious, Op_hashChanged None, Op_destroy] at_a)"
    by blast
  from applicationReady_monotone
    [of ?r0 "[Op_init]" "Str ''a''" "plain_step ''a''" None Null] n0 r1 l g a d
  have 2: "\<exists>k d s. Call_render k d \<in> set (drop (length (trace ?r0)) (trace (run [Op_init] ?r0))) \<and>
            steps (options ?r0) k = Some s \<and> render s d = Ok ()"
    and 3: "fst (createStep (Str ''a'') ?r0) = Ok ()"
    and 4: "applicationReady (snd (createStep (Str ''a'') ?r0))"
    by blast+
  from ra 1 n0 r1 2 3 4 show ?thesis by blast
qed

subsection \<open>C6: a disallowed transition\<close>

text \<open>
  Claim C6: when the gate answers that the route cannot be displayed, \<open>hashChanged\<close>
  sets the redirect marker to \<open>redirect = true\<close> with the previous route parsed from the
  event, sets \<open>previousRoute\<close> to \<open>null\<close>, writes the fallback route to the location if
  and only if the answer carries one (a truthy one), and calls neither \<open>destroy\<close> nor
  \<open>render\<close>.
\<close>

theorem disallowed_transition_redirects:
  assumes "fst (checkIfTheStepCanBeDisplay (getRoute r) e r) = Ok v"
    and "\<not> canBeDisplayed v"
  shows "fst (hashChanged e r) = Ok () \<and>
         stepRedirected (snd (hashChanged e r)) =
           \<lparr> redirect = True, marker_previousRoute = getPreviousRoute e \<rparr> \<and>
         previousRoute (snd (hashChanged e r)) = Null \<and>
         currentRoute (snd (hashChanged e r)) = Str (getRoute r) \<and>
         location_writes (snd (hashChanged e r)) =
           location_writes r @
             (if truthy (verdict_fallbackRoute v) then [Write_hash (verdict_fallbackRoute v)]
              else []) \<and>
         hash (snd (hashChanged e r)) =
           (if truthy (verdict_fallbackRoute v) then hash_of (ToString (verdict_fallbackRoute v))
            else hash r) \<and>
         lifecycle_calls (snd (hashChanged e r)) = lifecycle_calls r"
proof -
  obtain x r1 where ck: "checkIfTheStepCanBeDisplay (getRoute r) e r = (x, r1)"
    by (cases "checkIfTheStepCanBeDisplay (getRoute r) e r")
  with assms(1) have x: "x = Ok v" by simp
  from ck have "r1 = snd (checkIfTheStepCanBeDisplay (getRoute r) e r)" by simp
  then have r1: "r1 = (case steps (options r) (getRoute r) of
        Some s \<Rightarrow> r\<lparr> trace := trace r @ [Call_canTheStepBeDisplayed (getRoute r)] \<rparr>
      | None \<Rightarrow> r)"
    by (simp only: checkIfTheStepCanBeDisplay_state)
  have same: "hash r1 = hash r" "filter is_write (trace r1) = filter is_write (trace r)"
    "filter is_lifecycle (trace r1) = filter is_lifecycle (trace r)"
    by (simp_all add: r1 split: option.splits)
  have hc: "hashChanged e r =
      (Ok (), stepCantBeDisplayed e (verdict_fallbackRoute v) (r1\<lparr> currentRoute := Str (getRoute r) \<rparr>))"
    using ck x assms(2) by (simp add: hashChanged_def Let_def)
  show ?thesis
  proof (cases "truthy (verdict_fallbackRoute v)")
    case True
    with same show ?thesis
      by (simp add: hc stepCantBeDisplayed_def setRoute_def Let_def location_writes_def
          lifecycle_calls_def)
  next
    case False
    with same show ?thesis
      by (simp add: hc stepCantBeDisplayed_def Let_def location_writes_def
          lifecycle_calls_def)
  qed
qed

theorem disallowed_transition_redirects_witness:
  "fst (checkIfTheStepCanBeDisplay (getRoute entering_c)
          (Some (HashChangeEvent ''http://h/#b'')) entering_c)
     = Ok \<lparr> canBeDisplayed = False, verdict_fallbackRoute = Str ''a'' \<rparr> \<and>
   fst (hashChanged (Some (HashChangeEvent ''http://h/#b'')) entering_c) = Ok () \<and>
   stepRedirected (snd (hashChanged (Some (HashChangeEvent ''http://h/#b'')) entering_c)) =
     \<lparr> redirect = True, marker_previousRoute = Str ''b'' \<rparr> \<and>
   previousRoute (snd (hashChanged (Some (HashChangeEvent ''http://h/#b'')) entering_c)) = Null \<and>
   location_writes (snd (hashChanged (Some (HashChangeEvent ''http://h/#b'')) entering_c)) =
     location_writes entering_c @ [Write_hash (Str ''a'')] \<and>
   hash (snd (hashChanged (Some (HashChangeEvent ''http://h/#b'')) entering_c)) = ''#a'' \<and>
   lifecycle_calls (snd (hashChanged (Some (HashChangeEvent ''http://h/#b'')) entering_c)) =
     lifecycle_calls entering_c"
proof -
  let ?e = "Some (HashChangeEvent ''http://h/#b'')"
  let ?v = "\<lparr> canBeDisplayed = False, verdict_fallbackRoute = Str ''a'' \<rparr>"
  have 1: "fst (checkIfTheStepCanBeDisplay (getRoute entering_c) ?e entering_c) = Ok ?v"
    by code_simp
  have 2: "\<not> canBeDisplayed ?v" by simp
  have p: "getPreviousRoute ?e = Str ''b''" by code_simp
  from disallowed_transition_redirects [OF 1 2] 1 p show ?thesis
    by (simp add: hash_of_def)
qed

subsection \<open>C7: \<open>triggerNext\<close>\<close>

text \<open>
  Claim C7 says that \<open>triggerNext\<close> returns false and writes nothing when the current
  route is the last entry of \<open>stepsOrder\<close>, and otherwise writes the next route and
  returns true. As stated the second half fails: what is written is the \<open>route\<close>
  property of the step registered for the next entry. With steps that have no such
  property, \<open>triggerNext\<close> on \<open>a\<close> (followed by \<open>b\<close>) writes \<open>undefined\<close> and returns
  true. The first half fails when a step is registered under the name \<open>undefined\<close>:
  on the last entry \<open>c\<close>, \<open>triggerNext\<close> then writes that step's route and returns true.
\<close>

theorem triggerNext_counterexample:
  "currentRoute unrouted_at_a = Str ''a'' \<and>
   stepsOrder (options unrouted_at_a) = [''a'', ''b''] \<and>
   fst (triggerNext unrouted_at_a) = True \<and>
   location_writes (snd (triggerNext unrouted_at_a)) = [Write_hash Undefined] \<and>
   hash (snd (triggerNext unrouted_at_a)) = ''#undefined'' \<and>
   currentRoute undefined_at_c = Str ''c'' \<and>
   stepsOrder (options undefined_at_c) = [''a'', ''b'', ''c''] \<and>
   fst (triggerNext undefined_at_c) = True \<and>
   location_writes (snd (triggerNext undefined_at_c)) = [Write_hash (Str ''x'')]"
  by code_simp

text \<open>
  Claim C7, amended: in a registry that satisfies \<open>registry_ok\<close> and has no route
  named \<open>end\<close>, when the current route
  is the last entry of \<open>stepsOrder\<close>, \<open>triggerNext\<close> returns false and changes nothing
  but \<open>reverseNavigation\<close> and \<open>previousRoute\<close> (no write to the location, no call of
  \<open>destroy\<close> or \<open>render\<close>); when it is another entry, \<open>triggerNext\<close> writes the entry
  that follows it to the location, logs nothing else, and returns true.
\<close>

theorem triggerNext_in_registry:
  assumes "registry_ok (options r)" and "''end'' \<notin> set (stepsOrder (options r))"
    and "i < length (stepsOrder (options r))"
    and "currentRoute r = Str (stepsOrder (options r) ! i)"
  shows "triggerNext r =
     (if Suc i < length (stepsOrder (options r))
      then (True, r\<lparr> reverseNavigation := False, previousRoute := currentRoute r,
                     hash := hash_of (stepsOrder (options r) ! Suc i),
                     trace := trace r @ [Write_hash (Str (stepsOrder (options r) ! Suc i))] \<rparr>)
      else (False, r\<lparr> reverseNavigation := False, previousRoute := currentRoute r \<rparr>))"
proof -
  note e = assms(2)
  have nx: "getNextStepRoute r (currentRoute r) =
         (if Suc i < length (stepsOrder (options r)) then Str (stepsOrder (options r) ! Suc i)
          else Str ''end'')"
    using next_in_registry [OF assms(1,3)] assms(4) by simp
  show ?thesis
  proof (cases "Suc i < length (stepsOrder (options r))")
    case True
    then have "stepsOrder (options r) ! Suc i \<in> set (stepsOrder (options r))" by simp
    with e have "stepsOrder (options r) ! Suc i \<noteq> ''end''" by metis
    with True nx show ?thesis by (simp add: triggerNext_eq)
  next
    case False
    with nx show ?thesis by (simp add: triggerNext_eq)
  qed
qed

theorem triggerNext_in_registry_witness:
  "registry_ok (options at_a) \<and> registry_ok (options at_c) \<and>
   ''end'' \<notin> set (stepsOrder (options at_a)) \<and>
   ''end'' \<notin> set (stepsOrder (options at_c)) \<and>
   currentRoute at_a = Str (stepsOrder (options at_a) ! 0) \<and>
   currentRoute at_c = Str (stepsOrder (options at_c) ! 2) \<and>
   fst (triggerNext at_a) = True \<and>
   trace (snd (triggerNext at_a)) = trace at_a @ [Write_hash (Str ''b'')] \<and>
   hash (snd (triggerNext at_a)) = ''#b'' \<and>
   fst (triggerNext at_c) = False \<and>
   trace (snd (triggerNext at_c)) = trace at_c \<and>
   hash (snd (triggerNext at_c)) = hash at_c"
proof -
  have oka: "registry_ok (options at_a)" and okc: "registry_ok (options at_c)"
    by (simp_all add: opts_at_a opts_at_c registry_ok_abc)
  have ea: "''end'' \<notin> set (stepsOrder (options at_a))"
    and ec: "''end'' \<notin> set (stepsOrder (options at_c))"
    by (simp_all add: opts_at_a opts_at_c abc_options_def)
  have la: "0 < length (stepsOrder (options at_a))" and lc: "2 < length (stepsOrder (options at_c))"
    by (simp_all add: opts_at_a opts_at_c abc_options_def)
  have ca: "currentRoute at_a = Str (stepsOrder (options at_a) ! 0)"
    and cc: "currentRoute at_c = Str (stepsOrder (options at_c) ! 2)"
    by code_simp+
  from triggerNext_in_registry [OF oka ea la ca]
  have a: "fst (triggerNext at_a) = True"
    "trace (snd (triggerNext at_a)) = trace at_a @ [Write_hash (Str ''b'')]"
    "hash (snd (triggerNext at_a)) = ''#b''"
    by (simp_all add: opts_at_a abc_options_def hash_of_def)
  from triggerNext_in_registry [OF okc ec lc cc]
  have c: "fst (triggerNext at_c) = False"
    "trace (snd (triggerNext at_c)) = trace at_c"
    "hash (snd (triggerNext at_c)) = hash at_c"
    by (simp_all add: opts_at_c abc_options_def)
  from oka okc ea ec ca cc a c show ?thesis by blast
qed

subsection \<open>C8: next, then previous\<close>

text \<open>
  Claim C8 says that for every route \<open>R\<close> of \<open>stepsOrder\<close> whose next route is not
  \<open>end\<close>, the previous route of the next route is \<open>R\<close>. As stated it fails for steps
  without a \<open>route\<close> property: the next route of \<open>a\<close> is then \<open>undefined\<close>, which is
  not \<open>end\<close>, and the previous route of \<open>undefined\<close> is \<open>end\<close>. It also fails on
  the last entry when a step is registered under the name \<open>undefined\<close>.
\<close>

theorem previous_of_next_counterexample:
  "''a'' \<in> set (stepsOrder unrouted_options) \<and>
   getNextStepRoute (Router unrouted_options []) (Str ''a'') \<noteq> Str ''end'' \<and>
   getPreviousStepRoute (Router unrouted_options [])
     (getNextStepRoute (Router unrouted_options []) (Str ''a'')) = Str ''end'' \<and>
   getPreviousStepRoute (Router unrouted_options [])
     (getNextStepRoute (Router unrouted_options []) (Str ''a'')) \<noteq> Str ''a'' \<and>
   ''c'' \<in> set (stepsOrder undefined_options) \<and>
   getNextStepRoute (Router undefined_options []) (Str ''c'') = Str ''x'' \<and>
   getPreviousStepRoute (Router undefined_options [])
     (getNextStepRoute (Router undefined_options []) (Str ''c'')) = Str ''x''"
  by (simp add: router_defs example_defs undefined_options_def)

text \<open>
  Claim C8, amended: in a registry that satisfies \<open>registry_ok\<close>, for every route \<open>R\<close>
  of \<open>stepsOrder\<close> whose next route is not \<open>end\<close>, the previous route of the next
  route is \<open>R\<close>.
\<close>

theorem previous_of_next_in_registry:
  assumes "registry_ok (options r)" and "R \<in> set (stepsOrder (options r))"
    and "getNextStepRoute r (Str R) \<noteq> Str ''end''"
  shows "getPreviousStepRoute r (getNextStepRoute r (Str R)) = Str R"
proof -
  from assms(2) obtain i where i: "i < length (stepsOrder (options r))"
    and R: "R = stepsOrder (options r) ! i"
    by (auto simp: in_set_conv_nth)
  from assms(3) next_in_registry [OF assms(1) i] R
  have lt: "Suc i < length (stepsOrder (options r))"
    and nx: "getNextStepRoute r (Str R) = Str (stepsOrder (options r) ! Suc i)"
    by (auto split: if_splits)
  from previous_in_registry [OF assms(1) lt] nx R show ?thesis by simp
qed

theorem previous_of_next_in_registry_witness:
  "registry_ok (options (Router abc_options [])) \<and>
   ''a'' \<in> set (stepsOrder (options (Router abc_options []))) \<and>
   getNextStepRoute (Router abc_options []) (Str ''a'') \<noteq> Str ''end'' \<and>
   getPreviousStepRoute (Router abc_options [])
     (getNextStepRoute (Router abc_options []) (Str ''a'')) = Str ''a''"
proof -
  have ok: "registry_ok (options (Router abc_options []))"
    by (simp add: Router_def registry_ok_abc)
  have m: "''a'' \<in> set (stepsOrder (options (Router abc_options [])))"
    by (simp add: Router_def abc_options_def)
  have n: "getNextStepRoute (Router abc_options []) (Str ''a'') \<noteq> Str ''end''"
    by (simp add: router_defs example_defs)
  from previous_of_next_in_registry [OF ok m n] ok m n show ?thesis by blast
qed

subsection \<open>C9: \<open>triggerPrevious\<close>\<close>

text \<open>
  Claim C9 says that \<open>triggerPrevious\<close> always sets \<open>reverseNavigation\<close>, stores the
  current route as the previous one and writes \<open>getPreviousStepRoute\<close> of the current
  route to the location with no test of the value, and that what it writes is the
  sentinel \<open>end\<close> when the current route is the first entry of \<open>stepsOrder\<close>. The last
  part fails in one case. The sequencer has no test for the start of \<open>stepsOrder\<close>: it
  reads \<open>stepsOrder[-1]\<close>, which is \<open>undefined\<close>, and relies on finding no step under
  that name. When a step is registered under the name \<open>undefined\<close>, its route is
  written.
\<close>

theorem triggerPrevious_counterexample:
  "currentRoute undefined_at_a = Str ''a'' \<and>
   hd (stepsOrder (options undefined_at_a)) = ''a'' \<and>
   location_writes (triggerPrevious undefined_at_a) = [Write_hash (Str ''x'')] \<and>
   hash (triggerPrevious undefined_at_a) = ''#x''"
  by code_simp

text \<open>
  Claim C9, amended: \<open>triggerPrevious\<close> always sets \<open>reverseNavigation\<close>, stores the
  current route as the previous one, and writes \<open>getPreviousStepRoute\<close> of the current
  route to the location, with no test of the value. It writes the sentinel \<open>end\<close> when
  the current route is the first entry of \<open>stepsOrder\<close> and no step is registered under
  the name \<open>undefined\<close>.
\<close>

theorem triggerPrevious_always_writes:
  "triggerPrevious r =
     r\<lparr> reverseNavigation := True, previousRoute := currentRoute r,
        hash := hash_of (ToString (getPreviousStepRoute r (currentRoute r))),
        trace := trace r @ [Write_hash (getPreviousStepRoute r (currentRoute r))] \<rparr> \<and>
   (stepsOrder (options r) \<noteq> [] \<and> currentRoute r = Str (hd (stepsOrder (options r))) \<and>
    steps (options r) ''undefined'' = None \<longrightarrow>
      trace (triggerPrevious r) = trace r @ [Write_hash (Str ''end'')] \<and>
      hash (triggerPrevious r) = ''#end'')"
proof (intro conjI impI)
  show "triggerPrevious r =
     r\<lparr> reverseNavigation := True, previousRoute := currentRoute r,
        hash := hash_of (ToString (getPreviousStepRoute r (currentRoute r))),
        trace := trace r @ [Write_hash (getPreviousStepRoute r (currentRoute r))] \<rparr>"
    by (rule triggerPrevious_eq)
next
  assume a: "stepsOrder (options r) \<noteq> [] \<and> currentRoute r = Str (hd (stepsOrder (options r))) \<and>
    steps (options r) ''undefined'' = None"
  then have e: "getPreviousStepRoute r (currentRoute r) = Str ''end''"
    using previous_of_first [of r] by simp
  then show "trace (triggerPrevious r) = trace r @ [Write_hash (Str ''end'')]"
    by (simp add: triggerPrevious_eq)
  from e show "hash (triggerPrevious r) = ''#end''"
    by (simp add: triggerPrevious_eq hash_of_def)
qed

theorem triggerPrevious_always_writes_witness:
  "stepsOrder (options at_a) \<noteq> [] \<and> currentRoute at_a = Str (hd (stepsOrder (options at_a))) \<and>
   steps (options at_a) ''undefined'' = None \<and>
   reverseNavigation (triggerPrevious at_a) \<and>
   previousRoute (triggerPrevious at_a) = Str ''a'' \<and>
   trace (triggerPrevious at_a) = trace at_a @ [Write_hash (Str ''end'')] \<and>
   hash (triggerPrevious at_a) = ''#end''"
proof -
  have n: "stepsOrder (options at_a) \<noteq> []" and u: "steps (options at_a) ''undefined'' = None"
    by (simp_all add: opts_at_a abc_options_def)
  have c: "currentRoute at_a = Str (hd (stepsOrder (options at_a)))"
    by code_simp
  have c': "currentRoute at_a = Str ''a''"
    by code_simp
  from triggerPrevious_always_writes [of at_a] n u c
  have t: "trace (triggerPrevious at_a) = trace at_a @ [Write_hash (Str ''end'')]"
    and h: "hash (triggerPrevious at_a) = ''#end''"
    by blast+
  have "triggerPrevious at_a =
     at_a\<lparr> reverseNavigation := True, previousRoute := currentRoute at_a,
        hash := hash_of (ToString (getPreviousStepRoute at_a (currentRoute at_a))),
        trace := trace at_a @ [Write_hash (getPreviousStepRoute at_a (currentRoute at_a))] \<rparr>"
    using triggerPrevious_always_writes [of at_a] by blast
  then have "reverseNavigation (triggerPrevious at_a)"
    and "previousRoute (triggerPrevious at_a) = Str ''a''"
    using c' by simp_all
  with n u c t h show ?thesis by blast
qed

subsection \<open>C10: the sequencer answers with the step's own \<open>route\<close>\<close>

text \<open>
  Claim C10: the sequencer reads its answer from the \<open>route\<close> property of the step
  registered for the neighbouring entry, not from \<open>stepsOrder\<close>. For a route at its
  first position \<open>i\<close>, if the entry at \<open>i + 1\<close> (at \<open>i - 1\<close>) is registered with the step
  \<open>S\<close>, the next (previous) route is \<open>route S\<close>; it is the neighbouring entry exactly
  when \<open>route S\<close> is that entry. For a step without the property the answer is
  \<open>undefined\<close>, not \<open>end\<close>.
\<close>

theorem sequencer_reads_route_property:
  assumes "i < length (stepsOrder (options r))"
    and "stepsOrder (options r) ! i \<notin> set (take i (stepsOrder (options r)))"
  shows "(Suc i < length (stepsOrder (options r)) \<and>
          steps (options r) (stepsOrder (options r) ! Suc i) = Some S \<longrightarrow>
            getNextStepRoute r (Str (stepsOrder (options r) ! i)) = route S \<and>
            (getNextStepRoute r (Str (stepsOrder (options r) ! i)) = Str (stepsOrder (options r) ! Suc i)
               \<longleftrightarrow> route S = Str (stepsOrder (options r) ! Suc i))) \<and>
         (0 < i \<and> steps (options r) (stepsOrder (options r) ! (i - 1)) = Some S \<longrightarrow>
            getPreviousStepRoute r (Str (stepsOrder (options r) ! i)) = route S \<and>
            (getPreviousStepRoute r (Str (stepsOrder (options r) ! i)) = Str (stepsOrder (options r) ! (i - 1))
               \<longleftrightarrow> route S = Str (stepsOrder (options r) ! (i - 1))))"
proof (intro conjI impI)
  assume a: "Suc i < length (stepsOrder (options r)) \<and>
          steps (options r) (stepsOrder (options r) ! Suc i) = Some S"
  then show n: "getNextStepRoute r (Str (stepsOrder (options r) ! i)) = route S"
    using next_at_position [OF assms] by (simp add: js_index_def nat_add_distrib)
  then show "getNextStepRoute r (Str (stepsOrder (options r) ! i)) = Str (stepsOrder (options r) ! Suc i)
               \<longleftrightarrow> route S = Str (stepsOrder (options r) ! Suc i)" by simp
next
  assume a: "0 < i \<and> steps (options r) (stepsOrder (options r) ! (i - 1)) = Some S"
  then show n: "getPreviousStepRoute r (Str (stepsOrder (options r) ! i)) = route S"
    using previous_at_position [OF assms] assms(1)
    by (simp add: js_index_def nat_diff_distrib)
  then show "getPreviousStepRoute r (Str (stepsOrder (options r) ! i)) = Str (stepsOrder (options r) ! (i - 1))
               \<longleftrightarrow> route S = Str (stepsOrder (options r) ! (i - 1))" by simp
qed

theorem sequencer_reads_route_property_witness:
  "(0::nat) < length (stepsOrder (options (Router unrouted_options []))) \<and>
   (1::nat) < length (stepsOrder (options (Router unrouted_options []))) \<and>
   getNextStepRoute (Router unrouted_options []) (Str ''a'') = Undefined \<and>
   getNextStepRoute (Router unrouted_options []) (Str ''a'') \<noteq> Str ''end'' \<and>
   getPreviousStepRoute (Router unrouted_options []) (Str ''b'') = Undefined \<and>
   getNextStepRoute (Router abc_options []) (Str ''a'') = Str ''b''"
proof -
  let ?r = "Router unrouted_options []"
  let ?q = "Router abc_options []"
  have l0: "(0::nat) < length (stepsOrder (options ?r))"
    and l1: "(1::nat) < length (stepsOrder (options ?r))"
    and q0: "(0::nat) < length (stepsOrder (options ?q))"
    by (simp_all add: Router_def example_defs)
  have t0: "stepsOrder (options ?r) ! 0 \<notin> set (take 0 (stepsOrder (options ?r)))"
    and t1: "stepsOrder (options ?r) ! 1 \<notin> set (take 1 (stepsOrder (options ?r)))"
    and tq: "stepsOrder (options ?q) ! 0 \<notin> set (take 0 (stepsOrder (options ?q)))"
    by (simp_all add: Router_def example_defs)
  have n: "getNextStepRoute ?r (Str ''a'') = Undefined"
    using sequencer_reads_route_property [OF l0 t0, of "(plain_step ''b'')\<lparr> route := Undefined \<rparr>"]
    by (simp add: Router_def example_defs)
  have p: "getPreviousStepRoute ?r (Str ''b'') = Undefined"
    using sequencer_reads_route_property [OF l1 t1, of "(plain_step ''a'')\<lparr> route := Undefined \<rparr>"]
    by (simp add: Router_def example_defs)
  have k: "getNextStepRoute ?q (Str ''a'') = Str ''b''"
    using sequencer_reads_route_property [OF q0 tq, of "plain_step ''b''"]
    by (simp add: Router_def example_defs)
  from l0 l1 n p k show ?thesis by simp
qed

end
